theory Spec2Isabelle
  imports Main "HOL-Library.AList" "HOL-Library.Sublist"
begin

section \<open>Wire messages\<close>

text \<open>
  \<^verbatim>\<open>model.Log\<close> and \<^verbatim>\<open>model.WebSocketMessage\<close>. The field \<^verbatim>\<open>Data interface{}\<close> holds
  nothing, a string (the heartbeat payload) or a log entry. Times are nanoseconds on
  one clock, as \<^verbatim>\<open>time.Duration\<close> counts them.
\<close>

type_synonym time = int

record Log =
  Level :: string
  Message :: string
  Timestamp :: time

datatype payload = NoData | Text string | LogData Log

record WebSocketMessage =
  Type :: string
  Data :: payload

section \<open>Go channels\<close>

text \<open>
  A channel is its buffer, its capacity and whether \<^verbatim>\<open>close\<close> has been called on it.
  Both operations below are the non-blocking forms that a \<^verbatim>\<open>select\<close> with a
  \<^verbatim>\<open>default\<close> branch uses, seen from a goroutine with no partner waiting on the other
  side: a receive is ready when the buffer holds a value or the channel is closed, a
  send is ready when the buffer has room, and a send on a closed channel panics.
\<close>

record 'a chan =
  buf :: "'a list"
  cap :: nat
  chClosed :: bool

datatype 'a recv = Recv 'a | RecvClosed | RecvBlock

datatype send = Sent | SendBlock | SendPanic

definition make_chan :: "nat \<Rightarrow> 'a chan" where
  "make_chan n = \<lparr>buf = [], cap = n, chClosed = False\<rparr>"

definition chan_recv :: "'a chan \<Rightarrow> 'a recv \<times> 'a chan" where
  "chan_recv ch =
     (case buf ch of
        x # xs \<Rightarrow> (Recv x, ch\<lparr>buf := xs\<rparr>)
      | [] \<Rightarrow> (if chClosed ch then RecvClosed else RecvBlock, ch))"

definition chan_send :: "'a chan \<Rightarrow> 'a \<Rightarrow> send \<times> 'a chan" where
  "chan_send ch x =
     (if chClosed ch then (SendPanic, ch)
      else if length (buf ch) < cap ch then (Sent, ch\<lparr>buf := buf ch @ [x]\<rparr>)
      else (SendBlock, ch))"

section \<open>The websocket of a connection\<close>

text \<open>
  \<^verbatim>\<open>*websocket.Conn\<close> belongs to the gorilla library, outside the repository. The model
  keeps what the code observes of it: the messages written to the client so far and
  whether \<^verbatim>\<open>Close\<close> was called. Whether one particular write succeeds is decided by the
  network, so it is an input \<open>ok\<close>; a write on a closed socket fails.
\<close>

record wsConn =
  sent :: "WebSocketMessage list"
  wsClosed :: bool

datatype error = ErrConnectionClosed | ErrWrite

definition WriteJSON :: "wsConn \<Rightarrow> WebSocketMessage \<Rightarrow> bool \<Rightarrow> error option \<times> wsConn" where
  "WriteJSON w m ok =
     (if ok \<and> \<not> wsClosed w then (None, w\<lparr>sent := sent w @ [m]\<rparr>) else (Some ErrWrite, w))"

definition wsClose :: "wsConn \<Rightarrow> wsConn" where
  "wsClose w = w\<lparr>wsClosed := True\<rparr>"

section \<open>Connection (connection.go)\<close>

text \<open>
  The struct \<^verbatim>\<open>Connection\<close>. The mutex \<^verbatim>\<open>mu\<close> has no field: every method below holds it
  from entry to return, so a method is one atomic step on the record.
\<close>

record Connection =
  ws :: wsConn
  channel :: "WebSocketMessage chan"
  lastSent :: time
  isClosed :: bool
  isPaused :: bool

definition Second :: time where
  "Second = 1000000000"

definition time_Since :: "time \<Rightarrow> time \<Rightarrow> time" where
  "time_Since now t = now - t"

definition NewConnection :: "time \<Rightarrow> Connection" where
  "NewConnection now =
     \<lparr>ws = \<lparr>sent = [], wsClosed = False\<rparr>,
      channel = make_chan 100,
      lastSent = now,
      isClosed = False,
      isPaused = False\<rparr>"

text \<open>
  \<^verbatim>\<open>Close\<close>: after the early return for a closed connection and setting the flag, the
  \<^verbatim>\<open>select\<close> takes its receive case whenever a receive is ready, that is when the
  channel is closed or when its buffer holds a message (the message is then taken out
  and discarded); only otherwise does \<^verbatim>\<open>default\<close> run \<^verbatim>\<open>close(c.channel)\<close>, on a
  channel that is then open, so that \<^verbatim>\<open>close\<close> cannot panic.
\<close>

definition Close :: "Connection \<Rightarrow> Connection" where
  "Close c =
     (if isClosed c then c
      else
        let c1 = c\<lparr>isClosed := True\<rparr> in
        (case chan_recv (channel c1) of
           (RecvBlock, ch) \<Rightarrow> c1\<lparr>channel := ch\<lparr>chClosed := True\<rparr>\<rparr>
         | (_, ch) \<Rightarrow> c1\<lparr>channel := ch\<rparr>))"

definition IsClosed :: "Connection \<Rightarrow> bool" where
  "IsClosed c = isClosed c"

text \<open>\<^verbatim>\<open>sendLog\<close>; \<open>None\<close> is the panic of a send on a closed channel.\<close>

definition sendLog :: "Connection \<Rightarrow> WebSocketMessage \<Rightarrow> time \<Rightarrow> Connection option" where
  "sendLog c message now =
     (if isClosed c then Some c
      else
        (case chan_send (channel c) message of
           (Sent, ch) \<Rightarrow> Some (c\<lparr>channel := ch, lastSent := now\<rparr>)
         | (SendBlock, ch) \<Rightarrow> Some c
         | (SendPanic, ch) \<Rightarrow> None))"

definition shouldDrop :: "Connection \<Rightarrow> time \<Rightarrow> bool" where
  "shouldDrop c now =
     (if isClosed c then True
      else if isPaused c \<and> time_Since now (lastSent c) > 10 * Second then True
      else False)"

definition SetPaused :: "Connection \<Rightarrow> bool \<Rightarrow> Connection" where
  "SetPaused c paused = (if isClosed c then c else c\<lparr>isPaused := paused\<rparr>)"

definition IsPaused :: "Connection \<Rightarrow> bool" where
  "IsPaused c = isPaused c"

definition pingMessage :: WebSocketMessage where
  "pingMessage = \<lparr>Type = ''ping'', Data = Text ''heartbeat''\<rparr>"

definition pongMessage :: WebSocketMessage where
  "pongMessage = \<lparr>Type = ''pong'', Data = Text ''heartbeat''\<rparr>"

definition SendPing :: "Connection \<Rightarrow> bool \<Rightarrow> error option \<times> Connection" where
  "SendPing c ok =
     (if isClosed c then (Some ErrConnectionClosed, c)
      else
        (case WriteJSON (ws c) pingMessage ok of
           (Some err, w) \<Rightarrow> (Some err, c\<lparr>ws := w\<rparr>)
         | (None, w) \<Rightarrow> (None, c\<lparr>ws := w\<rparr>)))"

text \<open>
  The body of the loop of \<^verbatim>\<open>HandleMessages\<close> for one message read from the client:
  the \<^verbatim>\<open>switch\<close> on \<^verbatim>\<open>message.Type\<close>. \<open>now\<close> is the clock when the message is handled
  and \<open>ok\<close> the outcome of the write of the reply, if one is written.
\<close>

definition HandleMessages_body ::
  "Connection \<Rightarrow> WebSocketMessage \<Rightarrow> time \<Rightarrow> bool \<Rightarrow> Connection" where
  "HandleMessages_body c message now ok =
     (if Type message = ''ping'' then
        let c1 = c\<lparr>lastSent := now\<rparr> in
        c1\<lparr>ws := snd (WriteJSON (ws c1) pongMessage ok)\<rparr>
      else if Type message = ''pong'' then c\<lparr>lastSent := now\<rparr>
      else if Type message = ''pause'' then SetPaused (c\<lparr>lastSent := now\<rparr>) True
      else if Type message = ''resume'' then SetPaused (c\<lparr>lastSent := now\<rparr>) False
      else c)"

text \<open>
  The two goroutines of a connection. Each runs against a finite list of what the
  outside world supplies: the reads of the inbound task (a message, or a read error),
  the write outcomes of the outbound task. A task that is waiting when the list is
  used up, or that blocks on an empty open channel, is \<open>Running\<close>; after its deferred
  calls it is \<open>Exited\<close>. A read on a closed socket is an error.
\<close>

datatype task = Running | Exited

datatype read = ReadOk WebSocketMessage time bool | ReadFail

fun HandleMessages :: "Connection \<Rightarrow> read list \<Rightarrow> Connection \<times> task" where
  "HandleMessages c [] = (c, Running)"
| "HandleMessages c (ReadFail # rs) = (Close c, Exited)"
| "HandleMessages c (ReadOk message now ok # rs) =
     (if wsClosed (ws c) then (Close c, Exited)
      else HandleMessages (HandleMessages_body c message now ok) rs)"

fun Send :: "Connection \<Rightarrow> bool list \<Rightarrow> Connection \<times> task" where
  "Send c [] = (c, Running)"
| "Send c (ok # oks) =
     (case chan_recv (channel c) of
        (RecvBlock, ch) \<Rightarrow> (c, Running)
      | (RecvClosed, ch) \<Rightarrow> (Close (c\<lparr>ws := wsClose (ws c)\<rparr>), Exited)
      | (Recv message, ch) \<Rightarrow>
          (case WriteJSON (ws c) message ok of
             (Some err, w) \<Rightarrow> (Close (c\<lparr>channel := ch, ws := wsClose w\<rparr>), Exited)
           | (None, w) \<Rightarrow> Send (c\<lparr>channel := ch, ws := w\<rparr>) oks))"

section \<open>ConnectionHub\<close>

text \<open>
  A \<^verbatim>\<open>*Connection\<close> is an address; \<open>store\<close> is the memory the addresses point into.
  The map \<^verbatim>\<open>connections\<close> is an association list with \<^verbatim>\<open>h.connections[c] = true\<close> as
  \<open>AList.update\<close> and \<^verbatim>\<open>delete\<close> as \<open>AList.delete\<close>; a \<^verbatim>\<open>range\<close> over the map visits
  the keys it held when the loop started, in the order of the list (Go leaves the
  order open).

  A health check reads the clock once, \<open>now\<close>, and \<open>pingok c\<close> is the outcome of
  the write of the ping to connection \<open>c\<close>.

  The channel \<^verbatim>\<open>unregister\<close> is made without a buffer, so the non-blocking send
  \<^verbatim>\<open>select { case h.unregister <- conn: ... default: ... }\<close> goes through only when a
  receiver is waiting at that moment. That is the scheduler's choice: the functions
  take it as \<open>accept\<close>, per connection, and \<open>\<not> accept c\<close> is the saturated channel.
  The connection handed over is received by the loop later, as an \<open>Unregister\<close> event.

  A broadcast only starts its goroutines, \<^verbatim>\<open>go func(c *Connection) { ... }(conn)\<close>:
  they run later, beside the loop and the connections' own tasks. \<open>deliveries\<close> holds
  the goroutines that were started and have not returned, each with its connection,
  its envelope and the call it makes next: \<^verbatim>\<open>IsPaused\<close>, \<^verbatim>\<open>shouldDrop\<close> or
  \<^verbatim>\<open>sendLog\<close>. Each of the three calls takes the connection's lock on its own, so
  anything may happen to the connection between two of them.
\<close>

type_synonym conn_id = nat

datatype stage = AtIsPaused | AtShouldDrop | AtSendLog

datatype goroutine = Delivery conn_id WebSocketMessage stage

record ConnectionHub =
  connections :: "(conn_id \<times> bool) list"
  store :: "conn_id \<Rightarrow> Connection"
  deliveries :: "goroutine list"

definition NewConnectionHub :: "(conn_id \<Rightarrow> Connection) \<Rightarrow> ConnectionHub" where
  "NewConnectionHub st = \<lparr>connections = [], store = st, deliveries = []\<rparr>"

definition members :: "ConnectionHub \<Rightarrow> conn_id list" where
  "members h = map fst (connections h)"

definition on_conn :: "ConnectionHub \<Rightarrow> conn_id \<Rightarrow> Connection \<Rightarrow> ConnectionHub" where
  "on_conn h c v = h\<lparr>store := (store h)(c := v)\<rparr>"

text \<open>The first loop of \<^verbatim>\<open>checkConnectionHealth\<close>, collecting \<^verbatim>\<open>connectionsToDrop\<close>.\<close>

fun healthSweep ::
  "time \<Rightarrow> (conn_id \<Rightarrow> bool) \<Rightarrow> conn_id list \<Rightarrow> ConnectionHub \<Rightarrow> conn_id list
   \<Rightarrow> ConnectionHub \<times> conn_id list" where
  "healthSweep now pingok [] h drops = (h, drops)"
| "healthSweep now pingok (c # cs) h drops =
     (if IsClosed (store h c) then
        healthSweep now pingok cs
          (on_conn (h\<lparr>connections := AList.delete c (connections h)\<rparr>) c (Close (store h c)))
          drops
      else if shouldDrop (store h c) now then healthSweep now pingok cs h (drops @ [c])
      else if IsPaused (store h c) then
        (case SendPing (store h c) (pingok c) of
           (Some err, c') \<Rightarrow> healthSweep now pingok cs (on_conn h c c') (drops @ [c])
         | (None, c') \<Rightarrow> healthSweep now pingok cs (on_conn h c c') drops)
      else healthSweep now pingok cs h drops)"

text \<open>The second loop of \<^verbatim>\<open>checkConnectionHealth\<close>, over \<^verbatim>\<open>connectionsToDrop\<close>.\<close>

fun submitDrops :: "(conn_id \<Rightarrow> bool) \<Rightarrow> conn_id list \<Rightarrow> ConnectionHub \<Rightarrow> ConnectionHub" where
  "submitDrops accept [] h = h"
| "submitDrops accept (c # cs) h =
     (if accept c then submitDrops accept cs h
      else submitDrops accept cs (on_conn h c (Close (store h c))))"

definition checkConnectionHealth ::
  "ConnectionHub \<Rightarrow> time \<Rightarrow> (conn_id \<Rightarrow> bool) \<Rightarrow> (conn_id \<Rightarrow> bool) \<Rightarrow> ConnectionHub" where
  "checkConnectionHealth h now pingok accept =
     (case healthSweep now pingok (members h) h [] of
        (h1, connectionsToDrop) \<Rightarrow> submitDrops accept connectionsToDrop h1)"

text \<open>The broadcast branch of \<^verbatim>\<open>Run\<close>: the loop that fills \<^verbatim>\<open>activeConnections\<close>.\<close>

fun filterActive ::
  "(conn_id \<Rightarrow> bool) \<Rightarrow> conn_id list \<Rightarrow> ConnectionHub \<Rightarrow> conn_id list
   \<Rightarrow> ConnectionHub \<times> conn_id list" where
  "filterActive accept [] h active = (h, active)"
| "filterActive accept (c # cs) h active =
     (if IsClosed (store h c) then
        (if accept c then filterActive accept cs h active
         else
           filterActive accept cs
             (on_conn (h\<lparr>connections := AList.delete c (connections h)\<rparr>) c (Close (store h c)))
             active)
      else filterActive accept cs h (active @ [c]))"

text \<open>
  The broadcast branch starts one goroutine for each active connection, at its first
  call, and returns to the \<^verbatim>\<open>select\<close>.
\<close>

definition Broadcast ::
  "ConnectionHub \<Rightarrow> WebSocketMessage \<Rightarrow> (conn_id \<Rightarrow> bool) \<Rightarrow> ConnectionHub" where
  "Broadcast h logEntry accept =
     (if length (connections h) = 0 then h
      else
        (case filterActive accept (members h) h [] of
           (h1, activeConnections) \<Rightarrow>
             h1\<lparr>deliveries :=
                  deliveries h1 @ map (\<lambda>c. Delivery c logEntry AtIsPaused) activeConnections\<rparr>))"

text \<open>
  One call of the goroutine
  \<^verbatim>\<open>if !c.IsPaused() && !c.shouldDrop() { c.sendLog(logEntry) }\<close> on the connection as
  it is when the call is made: the stage to go on with (\<open>None\<close> when the goroutine
  returns) and the connection afterwards. The outer \<open>None\<close> is the panic of
  \<^verbatim>\<open>sendLog\<close>.
\<close>

fun delivery_next ::
  "stage \<Rightarrow> Connection \<Rightarrow> WebSocketMessage \<Rightarrow> time \<Rightarrow> (stage option \<times> Connection) option" where
  "delivery_next AtIsPaused c logEntry now =
     Some (if IsPaused c then None else Some AtShouldDrop, c)"
| "delivery_next AtShouldDrop c logEntry now =
     Some (if shouldDrop c now then None else Some AtSendLog, c)"
| "delivery_next AtSendLog c logEntry now =
     (case sendLog c logEntry now of None \<Rightarrow> None | Some c' \<Rightarrow> Some (None, c'))"

text \<open>
  The goroutine at position \<open>i\<close> of \<open>deliveries\<close> makes its next call, at time \<open>now\<close>;
  a goroutine that returns leaves the list. There is nothing to do when no goroutine
  is at that position.
\<close>

definition deliveryStep :: "ConnectionHub \<Rightarrow> nat \<Rightarrow> time \<Rightarrow> ConnectionHub option" where
  "deliveryStep h i now =
     (if length (deliveries h) \<le> i then Some h
      else
        (case deliveries h ! i of
           Delivery c logEntry st \<Rightarrow>
             (case delivery_next st (store h c) logEntry now of
                None \<Rightarrow> None
              | Some (None, c') \<Rightarrow>
                  Some (on_conn
                          (h\<lparr>deliveries := take i (deliveries h) @ drop (Suc i) (deliveries h)\<rparr>)
                          c c')
              | Some (Some st', c') \<Rightarrow>
                  Some (on_conn (h\<lparr>deliveries := (deliveries h)[i := Delivery c logEntry st']\<rparr>)
                          c c'))))"

text \<open>
  The three calls of the goroutine made one after the other with nothing in between.
  This is the body read as sequential code; the hub never runs it this way.
\<close>

definition deliveryTask :: "Connection \<Rightarrow> WebSocketMessage \<Rightarrow> time \<Rightarrow> Connection option" where
  "deliveryTask c logEntry now =
     (if \<not> IsPaused c \<and> \<not> shouldDrop c now then sendLog c logEntry now else Some c)"

text \<open>
  What happens to a connection between two iterations of the hub's loop: a run of
  one of its two goroutines, or a call of one of its methods.
\<close>

datatype conn_op =
  OpHandleMessages "read list"
| OpSend "bool list"
| OpClose
| OpSendLog WebSocketMessage time
| OpSetPaused bool
| OpSendPing bool

fun conn_step :: "conn_op \<Rightarrow> Connection \<Rightarrow> Connection option" where
  "conn_step (OpHandleMessages rs) c = Some (fst (HandleMessages c rs))"
| "conn_step (OpSend oks) c = Some (fst (Send c oks))"
| "conn_step OpClose c = Some (Close c)"
| "conn_step (OpSendLog m now) c = sendLog c m now"
| "conn_step (OpSetPaused p) c = Some (SetPaused c p)"
| "conn_step (OpSendPing ok) c = Some (snd (SendPing c ok))"

text \<open>
  \<^verbatim>\<open>Run\<close>: one event is one iteration of \<^verbatim>\<open>for { select { ... } }\<close>, or, in between,
  a step of a connection's own tasks or one call of a delivery goroutine. \<open>None\<close> is a
  panic.
\<close>

datatype event =
  Register conn_id
| Unregister conn_id
| HealthTick time "conn_id \<Rightarrow> bool" "conn_id \<Rightarrow> bool"
| BroadcastMsg WebSocketMessage "conn_id \<Rightarrow> bool"
| ConnTask conn_id conn_op
| Deliver nat time

fun Run_step :: "ConnectionHub \<Rightarrow> event \<Rightarrow> ConnectionHub option" where
  "Run_step h (Register c) = Some (h\<lparr>connections := AList.update c True (connections h)\<rparr>)"
| "Run_step h (Unregister c) =
     Some (on_conn (h\<lparr>connections := AList.delete c (connections h)\<rparr>) c (Close (store h c)))"
| "Run_step h (HealthTick now pingok accept) = Some (checkConnectionHealth h now pingok accept)"
| "Run_step h (BroadcastMsg logEntry accept) = Some (Broadcast h logEntry accept)"
| "Run_step h (ConnTask c op) =
     (case conn_step op (store h c) of None \<Rightarrow> None | Some c' \<Rightarrow> Some (on_conn h c c'))"
| "Run_step h (Deliver i now) = deliveryStep h i now"

fun Run :: "ConnectionHub \<Rightarrow> event list \<Rightarrow> ConnectionHub option" where
  "Run h [] = Some h"
| "Run h (e # es) = (case Run_step h e of None \<Rightarrow> None | Some h' \<Rightarrow> Run h' es)"

section \<open>Invariant, reference set and example values\<close>

text \<open>
  \<^verbatim>\<open>close(c.channel)\<close> is only ever called by \<^verbatim>\<open>Close\<close>, after it has set the flag: a
  closed channel belongs to a closed connection. Every operation keeps this, and
  under it \<^verbatim>\<open>sendLog\<close> never sends on a closed channel.
\<close>

definition conn_inv :: "Connection \<Rightarrow> bool" where
  "conn_inv c = (chClosed (channel c) \<longrightarrow> isClosed c)"

text \<open>
  The set of connections "registered and not yet unregistered", read off the events of
  the loop alone: a registration adds the connection; it is removed by the unregister
  branch, by a health check that finds it closed, and by a broadcast that finds it
  closed while the unregister channel does not accept it. \<open>h\<close> is the hub the event
  meets, consulted for the closed flags only.
\<close>

fun spec_step :: "ConnectionHub \<Rightarrow> event \<Rightarrow> conn_id set \<Rightarrow> conn_id set" where
  "spec_step h (Register c) S = insert c S"
| "spec_step h (Unregister c) S = S - {c}"
| "spec_step h (HealthTick now pingok accept) S = Set.filter (\<lambda>c. \<not> isClosed (store h c)) S"
| "spec_step h (BroadcastMsg m accept) S =
     Set.filter (\<lambda>c. \<not> (isClosed (store h c) \<and> \<not> accept c)) S"
| "spec_step h (ConnTask c op) S = S"
| "spec_step h (Deliver i now) S = S"

fun registered_not_unregistered :: "ConnectionHub \<Rightarrow> conn_id set \<Rightarrow> event list \<Rightarrow> conn_id set" where
  "registered_not_unregistered h S [] = S"
| "registered_not_unregistered h S (e # es) =
     (case Run_step h e of
        None \<Rightarrow> S
      | Some h' \<Rightarrow> registered_not_unregistered h' (spec_step h e S) es)"

definition exampleLog :: WebSocketMessage where
  "exampleLog =
     \<lparr>Type = ''log'', Data = LogData \<lparr>Level = ''INFO'', Message = ''m'', Timestamp = 0\<rparr>\<rparr>"

definition fullConn :: Connection where
  "fullConn =
     (NewConnection 0)
       \<lparr>channel := \<lparr>buf = replicate 100 exampleLog, cap = 100, chClosed = False\<rparr>,
        isPaused := True\<rparr>"

definition exampleTrace :: "event list" where
  "exampleTrace =
     [Register 1, Register 2, Register 1, ConnTask 2 OpClose,
      HealthTick 5 (\<lambda>_. True) (\<lambda>_. False), Register 3, Unregister 1]"

definition pausedConn :: Connection where
  "pausedConn = (NewConnection 0)\<lparr>isPaused := True\<rparr>"

definition exampleLog2 :: WebSocketMessage where
  "exampleLog2 =
     \<lparr>Type = ''log'', Data = LogData \<lparr>Level = ''WARN'', Message = ''n'', Timestamp = 1\<rparr>\<rparr>"

text \<open>A new connection after one, and after two, successful calls of \<^verbatim>\<open>sendLog\<close>.\<close>

definition queuedConn :: Connection where
  "queuedConn =
     (NewConnection 0)\<lparr>channel := (make_chan 100)\<lparr>buf := [exampleLog]\<rparr>, lastSent := 1\<rparr>"

definition twoQueued :: Connection where
  "twoQueued =
     (NewConnection 0)
       \<lparr>channel := (make_chan 100)\<lparr>buf := [exampleLog, exampleLog2]\<rparr>, lastSent := 2\<rparr>"

definition pauseMessage :: WebSocketMessage where
  "pauseMessage = \<lparr>Type = ''pause'', Data = NoData\<rparr>"

text \<open>
  A client connects, pauses at time 0 and is silent; the health check runs 11 seconds
  later. \<open>accepted\<close> tells whether the unregister channel takes the connection.
\<close>

definition staleTrace :: "bool \<Rightarrow> event list" where
  "staleTrace accepted =
     [Register 1, ConnTask 1 (OpHandleMessages [ReadOk pauseMessage 0 True]),
      HealthTick (11 * Second) (\<lambda>_. True) (\<lambda>_. accepted)]"

text \<open>
  A hub over closed connections that still hold an envelope, with a delivery goroutine
  for connection 1 that passed both tests before the connection was closed.
\<close>

definition closedHub :: ConnectionHub where
  "closedHub =
     (NewConnectionHub (\<lambda>_. Close twoQueued))\<lparr>deliveries := [Delivery 1 exampleLog AtSendLog]\<rparr>"

definition closedTrace :: "event list" where
  "closedTrace =
     [Register 1, BroadcastMsg exampleLog (\<lambda>_. True), Deliver 0 3,
      ConnTask 1 (OpSendLog exampleLog 4),
      ConnTask 1 (OpHandleMessages [ReadOk pauseMessage 5 True]),
      HealthTick 6 (\<lambda>_. True) (\<lambda>_. False), ConnTask 1 (OpSend [True])]"

definition pausedHub :: ConnectionHub where
  "pausedHub =
     \<lparr>connections = [(1, True), (2, True)], store = (\<lambda>_. pausedConn),
      deliveries = [Delivery 1 exampleLog AtIsPaused, Delivery 2 exampleLog AtShouldDrop]\<rparr>"

definition resumeMessage :: WebSocketMessage where
  "resumeMessage = \<lparr>Type = ''resume'', Data = NoData\<rparr>"

text \<open>
  A client pauses and a broadcast is dispatched while it is paused; the client
  resumes one second later, and then the goroutine of the broadcast makes its calls.
\<close>

definition pausedAtDispatch :: "event list" where
  "pausedAtDispatch =
     [Register 1, ConnTask 1 (OpHandleMessages [ReadOk pauseMessage 0 True]),
      BroadcastMsg exampleLog (\<lambda>_. False)]"

definition resumedBeforeTest :: "event list" where
  "resumedBeforeTest =
     pausedAtDispatch @
     [ConnTask 1 (OpHandleMessages [ReadOk resumeMessage Second True]),
      Deliver 0 (2 * Second), Deliver 0 (2 * Second), Deliver 0 (2 * Second)]"

text \<open>
  A broadcast is dispatched to a client that is not paused, the goroutine makes its
  two tests after one second, and the client pauses after two seconds: the goroutine
  has \<^verbatim>\<open>sendLog\<close> left to call.
\<close>

definition testedThenPaused :: "event list" where
  "testedThenPaused =
     [Register 1, BroadcastMsg exampleLog (\<lambda>_. False), Deliver 0 Second, Deliver 0 Second,
      ConnTask 1 (OpHandleMessages [ReadOk pauseMessage (2 * Second) True])]"

section \<open>Lemmas about a connection\<close>

lemma Close_isClosed [simp]: "isClosed (Close c)"
  by (simp add: Close_def chan_recv_def Let_def split: list.splits)

lemma Close_closed_id: "isClosed c \<Longrightarrow> Close c = c"
  by (simp add: Close_def)

lemma Close_idem: "Close (Close c) = Close c"
  by (simp add: Close_closed_id)

lemma Close_ws [simp]: "ws (Close c) = ws c"
  by (simp add: Close_def chan_recv_def Let_def split: list.splits)

lemma Close_buf: "buf (channel (Close c)) = buf (channel c) \<or> buf (channel (Close c)) = tl (buf (channel c))"
  by (simp add: Close_def chan_recv_def Let_def split: list.splits)

lemma Close_suffix: "suffix (buf (channel (Close c))) (buf (channel c))"
  using Close_buf [of c] by auto

lemma conn_inv_Close: "conn_inv (Close c)"
  by (simp add: conn_inv_def)

lemma sendLog_total: "conn_inv c \<Longrightarrow> \<exists>c'. sendLog c m now = Some c'"
  by (auto simp: sendLog_def chan_send_def conn_inv_def)

lemma sendLog_Some:
  "sendLog c m now = Some c' \<Longrightarrow>
     c' = c \<or> (\<not> isClosed c \<and> c' = c\<lparr>channel := (channel c)\<lparr>buf := buf (channel c) @ [m]\<rparr>, lastSent := now\<rparr>)"
  by (auto simp: sendLog_def chan_send_def split: if_splits)

lemma body_frame:
  "isClosed (HandleMessages_body c m now ok) = isClosed c \<and>
   channel (HandleMessages_body c m now ok) = channel c"
  by (simp add: HandleMessages_body_def SetPaused_def Let_def)

lemma HandleMessages_shape:
  "\<exists>c'. channel c' = channel c \<and> isClosed c' = isClosed c \<and>
        (fst (HandleMessages c rs) = c' \<or> fst (HandleMessages c rs) = Close c')"
proof (induction c rs rule: HandleMessages.induct)
  case (1 c)
  then show ?case by auto
next
  case (2 c rs)
  then show ?case by auto
next
  case (3 c message now ok rs)
  show ?case
  proof (cases "wsClosed (ws c)")
    case True
    then show ?thesis by auto
  next
    case False
    with 3 body_frame [of c message now ok] show ?thesis by auto
  qed
qed

lemma Send_shape:
  "\<exists>c'. suffix (buf (channel c')) (buf (channel c)) \<and> chClosed (channel c') = chClosed (channel c) \<and>
        isClosed c' = isClosed c \<and> (fst (Send c oks) = c' \<or> fst (Send c oks) = Close c')"
proof (induction oks arbitrary: c)
  case Nil
  then show ?case by auto
next
  case (Cons ok oks)
  show ?case
  proof (cases "buf (channel c)")
    case Nil
    then show ?thesis
      by (cases "chClosed (channel c)")
        (auto simp: chan_recv_def intro: exI [of _ "c\<lparr>ws := wsClose (ws c)\<rparr>"] exI [of _ c])
  next
    case (Cons m ms)
    note buf = this
    show ?thesis
    proof (cases "ok \<and> \<not> wsClosed (ws c)")
      case True
      let ?c1 = "c\<lparr>channel := (channel c)\<lparr>buf := ms\<rparr>, ws := (ws c)\<lparr>sent := sent (ws c) @ [m]\<rparr>\<rparr>"
      from True buf have eq: "Send c (ok # oks) = Send ?c1 oks"
        by (simp add: chan_recv_def WriteJSON_def)
      from Cons.IH [of ?c1]
      obtain c' where "suffix (buf (channel c')) ms" "chClosed (channel c') = chClosed (channel c)"
        "isClosed c' = isClosed c" "fst (Send ?c1 oks) = c' \<or> fst (Send ?c1 oks) = Close c'"
        by auto
      with eq buf show ?thesis
        by (auto intro!: exI [of _ c'] simp: suffix_Cons)
    next
      case False
      with buf show ?thesis
        by (auto simp: chan_recv_def WriteJSON_def suffix_Cons
            intro!: exI [of _ "c\<lparr>channel := (channel c)\<lparr>buf := ms\<rparr>, ws := wsClose (ws c)\<rparr>"])
    qed
  qed
qed


lemma conn_step_inv: "conn_inv c \<Longrightarrow> conn_step op c = Some c' \<Longrightarrow> conn_inv c'"
proof (cases op)
  case (OpHandleMessages rs)
  assume "conn_inv c" "conn_step op c = Some c'"
  with OpHandleMessages HandleMessages_shape [of c rs] show ?thesis
    by (auto simp: conn_inv_def)
next
  case (OpSend oks)
  assume "conn_inv c" "conn_step op c = Some c'"
  with OpSend Send_shape [of c oks] show ?thesis
    by (auto simp: conn_inv_def)
next
  case OpClose
  assume "conn_step op c = Some c'"
  with OpClose show ?thesis by (auto simp: conn_inv_Close)
next
  case (OpSendLog m now)
  assume "conn_inv c" "conn_step op c = Some c'"
  with OpSendLog sendLog_Some [of c m now c'] show ?thesis
    by (auto simp: conn_inv_def)
next
  case (OpSetPaused p)
  assume "conn_inv c" "conn_step op c = Some c'"
  with OpSetPaused show ?thesis by (auto simp: conn_inv_def SetPaused_def split: if_splits)
next
  case (OpSendPing ok)
  assume "conn_inv c" "conn_step op c = Some c'"
  with OpSendPing show ?thesis by (auto simp: conn_inv_def SendPing_def WriteJSON_def split: if_splits)
qed

lemma conn_step_total: "conn_inv c \<Longrightarrow> \<exists>c'. conn_step op c = Some c'"
  using sendLog_total by (cases op) auto

lemma conn_step_closed:
  assumes "isClosed c" and "conn_step op c = Some c'"
  shows "isClosed c' \<and> suffix (buf (channel c')) (buf (channel c))"
proof (cases op)
  case (OpHandleMessages rs)
  with assms HandleMessages_shape [of c rs] show ?thesis
    by (auto simp: Close_closed_id)
next
  case (OpSend oks)
  with assms Send_shape [of c oks] show ?thesis
    by (auto simp: Close_closed_id)
next
  case OpClose
  with assms show ?thesis by (auto simp: Close_closed_id)
next
  case (OpSendLog m now)
  with assms show ?thesis by (auto simp: sendLog_def)
next
  case (OpSetPaused p)
  with assms show ?thesis by (auto simp: SetPaused_def)
next
  case (OpSendPing ok)
  with assms show ?thesis by (auto simp: SendPing_def)
qed

lemma conn_inv_NewConnection: "conn_inv (NewConnection now)"
  by (simp add: conn_inv_def NewConnection_def make_chan_def)

lemma HandleMessages_ReadFail:
  "ReadFail \<in> set rs \<Longrightarrow>
     snd (HandleMessages c rs) = Exited \<and> isClosed (fst (HandleMessages c rs))"
  by (induction c rs rule: HandleMessages.induct) auto

lemma delivery_next_Some:
  "delivery_next st c m now = Some (r, c') \<Longrightarrow> c' = c \<or> sendLog c m now = Some c'"
  by (cases st) (auto split: option.splits)

lemma delivery_next_total: "conn_inv c \<Longrightarrow> \<exists>r. delivery_next st c m now = Some r"
  using sendLog_total [of c m now] by (cases st) auto

lemma deliveryTask_calls:
  "deliveryTask c m now =
     (case delivery_next AtIsPaused c m now of
        None \<Rightarrow> None
      | Some (None, c1) \<Rightarrow> Some c1
      | Some (Some s1, c1) \<Rightarrow>
          (case delivery_next s1 c1 m now of
             None \<Rightarrow> None
           | Some (None, c2) \<Rightarrow> Some c2
           | Some (Some s2, c2) \<Rightarrow> map_option snd (delivery_next s2 c2 m now)))"
  by (auto simp: deliveryTask_def split: option.splits)

section \<open>Properties of a connection\<close>

text \<open>
  C2. \<^verbatim>\<open>Close\<close> always sets the closed flag, and a second call changes nothing. It does
  not close the channel of every connection: evaluated on a new connection that holds
  one envelope, \<^verbatim>\<open>Close\<close> takes the envelope out of the buffer and leaves the channel
  open, so the outbound task started afterwards waits on the open, empty channel
  instead of finishing.
\<close>

theorem Close_nonempty_buffer:
  "isClosed (Close c) \<and> Close (Close c) = Close c \<and>
   sendLog (NewConnection 0) exampleLog 1 = Some queuedConn \<and>
   Close queuedConn = queuedConn\<lparr>isClosed := True, channel := make_chan 100\<rparr> \<and>
   \<not> chClosed (channel (Close queuedConn)) \<and>
   Send (Close queuedConn) [True, True] = (Close queuedConn, Running)"
proof -
  have enq: "sendLog (NewConnection 0) exampleLog 1 = Some queuedConn"
    by (simp add: sendLog_def chan_send_def queuedConn_def NewConnection_def make_chan_def)
  have cl: "Close queuedConn = queuedConn\<lparr>isClosed := True, channel := make_chan 100\<rparr>"
    by (simp add: queuedConn_def NewConnection_def make_chan_def Close_def chan_recv_def)
  have "Send (queuedConn\<lparr>isClosed := True, channel := make_chan 100\<rparr>) [True, True] =
          (queuedConn\<lparr>isClosed := True, channel := make_chan 100\<rparr>, Running)"
    by (simp add: make_chan_def chan_recv_def)
  with enq cl show ?thesis
    by (simp add: Close_idem make_chan_def)
qed

text \<open>
  C5. \<^verbatim>\<open>sendLog\<close> (the specification's enqueueForDelivery) returns the connection as it
  was when the connection is closed; when the buffer is full it returns the connection
  as it was too, so the closed flag, the paused flag, the last-activity time and the
  buffer are unchanged and only the envelope is lost; when there is room it appends the
  envelope to the buffer and sets the last-activity time to the current time. It
  never panics on a connection that satisfies the invariant.
\<close>

theorem sendLog_cases:
  assumes "conn_inv c"
  shows "(isClosed c \<longrightarrow> sendLog c m now = Some c) \<and>
         (\<not> isClosed c \<and> cap (channel c) \<le> length (buf (channel c)) \<longrightarrow>
            sendLog c m now = Some c) \<and>
         (\<not> isClosed c \<and> length (buf (channel c)) < cap (channel c) \<longrightarrow>
            sendLog c m now =
              Some (c\<lparr>channel := (channel c)\<lparr>buf := buf (channel c) @ [m]\<rparr>, lastSent := now\<rparr>))"
  using assms by (auto simp: sendLog_def chan_send_def conn_inv_def)

theorem sendLog_cases_witness:
  "conn_inv (NewConnection 0) \<and> conn_inv (Close (NewConnection 0)) \<and> conn_inv fullConn \<and>
   sendLog (NewConnection 0) exampleLog 7 =
     Some ((NewConnection 0)\<lparr>channel := (make_chan 100)\<lparr>buf := [exampleLog]\<rparr>, lastSent := 7\<rparr>) \<and>
   sendLog (Close (NewConnection 0)) exampleLog 7 = Some (Close (NewConnection 0)) \<and>
   sendLog fullConn exampleLog 7 = Some fullConn"
  using sendLog_cases [of "NewConnection 0" exampleLog 7]
    sendLog_cases [of "Close (NewConnection 0)" exampleLog 7]
    sendLog_cases [of fullConn exampleLog 7]
  by (simp add: conn_inv_def NewConnection_def make_chan_def Close_def chan_recv_def fullConn_def)

text \<open>
  C7, as amended. For a message read from the client the inbound task dispatches on
  its type: ping sets the last-activity time and writes a pong (which reaches the
  client when the write succeeds); pong sets the last-activity time only; pause and
  resume set the last-activity time and, unless the connection is already closed, set
  the paused flag to true and to false (on a closed connection the paused flag stays
  as it is); any other type leaves the connection as it is. On an open socket the
  task goes on with the next read, and once a read fails the task has exited and
  the connection is closed.
\<close>

theorem HandleMessages_dispatch:
  "HandleMessages_body c \<lparr>Type = ''ping'', Data = d\<rparr> now ok =
     c\<lparr>lastSent := now,
       ws := (if ok \<and> \<not> wsClosed (ws c) then (ws c)\<lparr>sent := sent (ws c) @ [pongMessage]\<rparr> else ws c)\<rparr> \<and>
   HandleMessages_body c \<lparr>Type = ''pong'', Data = d\<rparr> now ok = c\<lparr>lastSent := now\<rparr> \<and>
   HandleMessages_body c \<lparr>Type = ''pause'', Data = d\<rparr> now ok =
     c\<lparr>lastSent := now, isPaused := (if isClosed c then isPaused c else True)\<rparr> \<and>
   HandleMessages_body c \<lparr>Type = ''resume'', Data = d\<rparr> now ok =
     c\<lparr>lastSent := now, isPaused := (if isClosed c then isPaused c else False)\<rparr> \<and>
   (t \<notin> {''ping'', ''pong'', ''pause'', ''resume''} \<longrightarrow>
      HandleMessages_body c \<lparr>Type = t, Data = d\<rparr> now ok = c) \<and>
   (\<not> wsClosed (ws c) \<longrightarrow>
      HandleMessages c (ReadOk message now ok # rs) =
        HandleMessages (HandleMessages_body c message now ok) rs) \<and>
   (ReadFail \<in> set rs' \<longrightarrow>
      snd (HandleMessages c rs') = Exited \<and> isClosed (fst (HandleMessages c rs')))"
  using HandleMessages_ReadFail [of rs' c]
  by (simp add: HandleMessages_body_def SetPaused_def WriteJSON_def Let_def)

text \<open>The theorem at a log message, and at a pause followed by a read error.\<close>

theorem HandleMessages_dispatch_witness:
  "''log'' \<notin> {''ping'', ''pong'', ''pause'', ''resume''} \<and>
   HandleMessages_body pausedConn exampleLog 5 True = pausedConn \<and>
   \<not> wsClosed (ws pausedConn) \<and>
   ReadFail \<in> set [ReadOk pauseMessage 5 True, ReadFail] \<and>
   HandleMessages (NewConnection 0) [ReadOk pauseMessage 5 True, ReadFail] =
     (Close ((NewConnection 0)\<lparr>lastSent := 5, isPaused := True\<rparr>), Exited)"
  using HandleMessages_dispatch [where c = pausedConn and d = "Data exampleLog" and now = 5
      and ok = True and t = "''log''" and message = exampleLog and rs = "[]"
      and rs' = "[ReadOk pauseMessage 5 True, ReadFail]"]
    HandleMessages_dispatch [where c = "NewConnection 0" and d = NoData and now = 5
      and ok = True and t = "''log''" and message = pauseMessage and rs = "[ReadFail]"
      and rs' = "[ReadOk pauseMessage 5 True, ReadFail]"]
  by (simp add: exampleLog_def pausedConn_def NewConnection_def pauseMessage_def)

text \<open>
  C7 as stated fails: a pause that reaches a connection already closed does not set
  the paused flag.
\<close>

theorem pause_on_closed_connection:
  "isClosed (Close (NewConnection 0)) \<and>
   \<not> isPaused (HandleMessages_body (Close (NewConnection 0)) pauseMessage 5 True)"
  by (simp add: HandleMessages_body_def SetPaused_def pauseMessage_def NewConnection_def
      Close_def chan_recv_def make_chan_def)

text \<open>
  C8. \<^verbatim>\<open>shouldDrop\<close> is true exactly when the connection is closed, or it is paused and
  more than 10 seconds (10,000,000,000 ns) have passed since its last-activity time.
\<close>

theorem shouldDrop_iff:
  "shouldDrop c now = (isClosed c \<or> (isPaused c \<and> now - lastSent c > 10000000000))"
  by (simp add: shouldDrop_def time_Since_def Second_def)

text \<open>
  C9. \<^verbatim>\<open>sendLog\<close> does not look at the paused flag: on an open connection with room in
  the buffer it appends the envelope and sets the last-activity time whatever the
  flag is, and its result for any value of the flag is the result for \<open>c\<close> with the
  flag set afterwards. Paused connections are skipped by the delivery goroutine of
  the hub's broadcast, whose body returns a paused connection as it is and calls
  \<^verbatim>\<open>sendLog\<close> on one that is not paused.
\<close>

theorem sendLog_ignores_pause:
  assumes "conn_inv c" and "\<not> isClosed c" and "length (buf (channel c)) < cap (channel c)"
  shows "sendLog c m now =
           Some (c\<lparr>channel := (channel c)\<lparr>buf := buf (channel c) @ [m]\<rparr>, lastSent := now\<rparr>) \<and>
         sendLog (c\<lparr>isPaused := p\<rparr>) m now = map_option (\<lambda>c'. c'\<lparr>isPaused := p\<rparr>) (sendLog c m now) \<and>
         deliveryTask (c\<lparr>isPaused := True\<rparr>) m now = Some (c\<lparr>isPaused := True\<rparr>) \<and>
         deliveryTask (c\<lparr>isPaused := False\<rparr>) m now = sendLog (c\<lparr>isPaused := False\<rparr>) m now"
  using assms
  by (auto simp: sendLog_def chan_send_def conn_inv_def deliveryTask_def IsPaused_def shouldDrop_def)

text \<open>The theorem at a paused, open, empty connection.\<close>

theorem sendLog_ignores_pause_witness:
  "conn_inv pausedConn \<and> \<not> isClosed pausedConn \<and>
   length (buf (channel pausedConn)) < cap (channel pausedConn) \<and> isPaused pausedConn \<and>
   sendLog pausedConn exampleLog 7 =
     Some (pausedConn\<lparr>channel := (make_chan 100)\<lparr>buf := [exampleLog]\<rparr>, lastSent := 7\<rparr>) \<and>
   deliveryTask pausedConn exampleLog 7 = Some pausedConn"
  using sendLog_ignores_pause [of pausedConn exampleLog 7 True]
  by (simp add: conn_inv_def pausedConn_def NewConnection_def make_chan_def)

text \<open>
  C10, as amended. \<^verbatim>\<open>SendPing\<close> changes nothing of the connection but the socket it
  writes to: the closed flag, the paused flag, the outbound channel and the
  last-activity time are as before, whether the ping is written or not, so the drop
  predicate answers as before at every time: a ping that was sent does not defer the
  drop of a paused connection. The ping is written exactly when the connection is open
  and the write goes through.
\<close>

theorem SendPing_frame:
  "isClosed (snd (SendPing c ok)) = isClosed c \<and>
   isPaused (snd (SendPing c ok)) = isPaused c \<and>
   channel (snd (SendPing c ok)) = channel c \<and>
   lastSent (snd (SendPing c ok)) = lastSent c \<and>
   shouldDrop (snd (SendPing c ok)) now = shouldDrop c now \<and>
   (fst (SendPing c ok) = None) = (\<not> isClosed c \<and> ok \<and> \<not> wsClosed (ws c))"
  by (simp add: SendPing_def WriteJSON_def shouldDrop_def)

text \<open>
  C10 as stated fails in its last part: messages of the client are not the only thing
  that defers the drop of a paused connection. The goroutine of a broadcast that
  tested the connection before the client paused calls \<^verbatim>\<open>sendLog\<close> afterwards, which
  sets the last-activity time. The client was last heard at 2 seconds and the drop
  predicate is asked at 13 seconds: it holds before that call and no longer after it.
\<close>

theorem sendLog_defers_drop:
  "map_option (\<lambda>h. (isPaused (store h 1), lastSent (store h 1), shouldDrop (store h 1) (13 * Second)))
     (Run (NewConnectionHub (\<lambda>_. NewConnection 0)) testedThenPaused) =
     Some (True, 2 * Second, True) \<and>
   map_option (\<lambda>h. (isPaused (store h 1), lastSent (store h 1), shouldDrop (store h 1) (13 * Second)))
     (Run (NewConnectionHub (\<lambda>_. NewConnection 0)) (testedThenPaused @ [Deliver 0 (5 * Second)])) =
     Some (True, 5 * Second, False)"
  by code_simp

section \<open>Lemmas about the hub\<close>

lemma store_on_conn [simp]: "store (on_conn h c v) = (store h)(c := v)"
  by (simp add: on_conn_def)

lemma connections_on_conn [simp]: "connections (on_conn h c v) = connections h"
  by (simp add: on_conn_def)

lemma members_on_conn [simp]: "members (on_conn h c v) = members h"
  by (simp add: members_def)

lemma on_conn_same [simp]: "on_conn h c (store h c) = h"
  by (simp add: on_conn_def)

lemma members_delete [simp]:
  "members (h\<lparr>connections := AList.delete c (connections h)\<rparr>) = filter (\<lambda>k. k \<noteq> c) (members h)"
  by (simp add: members_def delete_keys removeAll_filter_not_eq) (metis)

lemma healthSweep_Cons:
  "healthSweep now pingok (c # cs) h drops =
     (if isClosed (store h c) then
        healthSweep now pingok cs (h\<lparr>connections := AList.delete c (connections h)\<rparr>) drops
      else if shouldDrop (store h c) now then healthSweep now pingok cs h (drops @ [c])
      else if isPaused (store h c) then
        healthSweep now pingok cs (on_conn h c (snd (SendPing (store h c) (pingok c))))
          (if fst (SendPing (store h c) (pingok c)) = None then drops else drops @ [c])
      else healthSweep now pingok cs h drops)"
  by (auto simp: IsClosed_def IsPaused_def Close_closed_id on_conn_def split: prod.splits option.splits)

lemma filterActive_Cons:
  "filterActive accept (c # cs) h active =
     (if isClosed (store h c) then
        (if accept c then filterActive accept cs h active
         else filterActive accept cs (h\<lparr>connections := AList.delete c (connections h)\<rparr>) active)
      else filterActive accept cs h (active @ [c]))"
  by (auto simp: IsClosed_def Close_closed_id on_conn_def)

lemma SendPing_isClosed [simp]: "isClosed (snd (SendPing c ok)) = isClosed c"
  by (simp add: SendPing_def WriteJSON_def)

lemma healthSweep_members:
  "members (fst (healthSweep now pingok cs h drops)) =
     filter (\<lambda>k. \<not> (k \<in> set cs \<and> isClosed (store h k))) (members h)"
proof (induction cs arbitrary: h drops)
  case Nil
  then show ?case by simp
next
  case (Cons c cs)
  show ?case
    unfolding healthSweep_Cons
    by (auto simp: Cons.IH intro!: filter_cong)
qed

lemma submitDrops_connections [simp]: "connections (submitDrops accept cs h) = connections h"
  by (induction cs arbitrary: h) auto

lemma checkConnectionHealth_members:
  "members (checkConnectionHealth h now pingok accept) =
     filter (\<lambda>k. \<not> isClosed (store h k)) (members h)"
proof -
  obtain h1 drops where hs: "healthSweep now pingok (members h) h [] = (h1, drops)"
    by (cases "healthSweep now pingok (members h) h []")
  have "members h1 = filter (\<lambda>k. \<not> (k \<in> set (members h) \<and> isClosed (store h k))) (members h)"
    using healthSweep_members [of now pingok "members h" h "[]"] hs by simp
  also have "\<dots> = filter (\<lambda>k. \<not> isClosed (store h k)) (members h)"
    by (rule filter_cong) auto
  finally show ?thesis
    using hs by (simp add: checkConnectionHealth_def members_def)
qed

lemma filterActive_members:
  "members (fst (filterActive accept cs h active)) =
     filter (\<lambda>k. \<not> (k \<in> set cs \<and> isClosed (store h k) \<and> \<not> accept k)) (members h)"
proof (induction cs arbitrary: h active)
  case Nil
  then show ?case by simp
next
  case (Cons c cs)
  show ?case
    unfolding filterActive_Cons
    by (auto simp: Cons.IH intro!: filter_cong)
qed

lemma filterActive_store [simp]: "store (fst (filterActive accept cs h active)) = store h"
proof (induction cs arbitrary: h active)
  case Nil
  then show ?case by simp
next
  case (Cons c cs)
  show ?case
    unfolding filterActive_Cons by (simp add: Cons.IH)
qed

lemma filterActive_deliveries [simp]:
  "deliveries (fst (filterActive accept cs h active)) = deliveries h"
proof (induction cs arbitrary: h active)
  case Nil
  then show ?case by simp
next
  case (Cons c cs)
  show ?case
    unfolding filterActive_Cons by (simp add: Cons.IH)
qed

lemma filterActive_active:
  "snd (filterActive accept cs h active) = active @ filter (\<lambda>k. \<not> isClosed (store h k)) cs"
proof (induction cs arbitrary: h active)
  case Nil
  then show ?case by simp
next
  case (Cons c cs)
  show ?case
    unfolding filterActive_Cons by (simp add: Cons.IH)
qed

lemma members_deliveries [simp]: "members (h\<lparr>deliveries := ds\<rparr>) = members h"
  by (simp add: members_def)

lemma checkConnectionHealth_alt:
  "checkConnectionHealth h now pingok accept =
     submitDrops accept (snd (healthSweep now pingok (members h) h []))
       (fst (healthSweep now pingok (members h) h []))"
  by (simp add: checkConnectionHealth_def split: prod.splits)

lemma Broadcast_alt:
  "Broadcast h m accept =
     (if connections h = [] then h
      else (fst (filterActive accept (members h) h []))
             \<lparr>deliveries :=
                deliveries h @
                map (\<lambda>c. Delivery c m AtIsPaused) (snd (filterActive accept (members h) h []))\<rparr>)"
proof (cases "filterActive accept (members h) h []")
  case (Pair h1 active)
  with filterActive_deliveries [of accept "members h" h "[]"] have "deliveries h1 = deliveries h"
    by simp
  with Pair show ?thesis by (simp add: Broadcast_def)
qed

lemma Broadcast_store [simp]: "store (Broadcast h m accept) = store h"
  by (simp add: Broadcast_alt)

lemma Broadcast_members:
  "members (Broadcast h m accept) =
     filter (\<lambda>k. \<not> (isClosed (store h k) \<and> \<not> accept k)) (members h)"
proof (cases "connections h = []")
  case True
  then show ?thesis by (simp add: Broadcast_alt members_def)
next
  case False
  have "filter (\<lambda>k. \<not> (k \<in> set (members h) \<and> isClosed (store h k) \<and> \<not> accept k)) (members h) =
        filter (\<lambda>k. \<not> (isClosed (store h k) \<and> \<not> accept k)) (members h)"
    by (rule filter_cong) auto
  with False show ?thesis by (simp add: Broadcast_alt filterActive_members)
qed

lemma Broadcast_deliveries:
  "deliveries (Broadcast h m accept) =
     deliveries h @
     map (\<lambda>k. Delivery k m AtIsPaused) (filter (\<lambda>k. \<not> isClosed (store h k)) (members h))"
  by (simp add: Broadcast_alt filterActive_active members_def)

lemma deliveryStep_connections:
  "deliveryStep h i now = Some h' \<Longrightarrow> connections h' = connections h"
  by (auto simp: deliveryStep_def split: if_splits goroutine.splits option.splits prod.splits)

lemma deliveryStep_store:
  assumes "deliveryStep h i now = Some h'"
  shows "store h' = store h \<or>
         (\<exists>c m c'. sendLog (store h c) m now = Some c' \<and> store h' = (store h)(c := c'))"
proof (cases "length (deliveries h) \<le> i")
  case True
  with assms show ?thesis by (simp add: deliveryStep_def)
next
  case False
  obtain c m st where g: "deliveries h ! i = Delivery c m st"
    by (cases "deliveries h ! i")
  from assms False g obtain r c' where n: "delivery_next st (store h c) m now = Some (r, c')"
    and h': "store h' = (store h)(c := c')"
    by (auto simp: deliveryStep_def split: option.splits)
  from delivery_next_Some [OF n] h' show ?thesis
    by (cases "c' = store h c") auto
qed

lemma deliveryStep_pres:
  assumes pres: "\<And>k op c c'. Q k c \<Longrightarrow> conn_step op c = Some c' \<Longrightarrow> Q k c'"
    and inv: "\<forall>k. Q k (store h k)" and step: "deliveryStep h i now = Some h'"
  shows "\<forall>k. Q k (store h' k)"
proof -
  from deliveryStep_store [OF step] show ?thesis
  proof
    assume "store h' = store h"
    with inv show ?thesis by simp
  next
    assume "\<exists>c m c'. sendLog (store h c) m now = Some c' \<and> store h' = (store h)(c := c')"
    then obtain c m c' where sl: "sendLog (store h c) m now = Some c'"
      and h': "store h' = (store h)(c := c')" by blast
    have "Q c c'" using pres [of c "store h c" "OpSendLog m now" c'] inv sl by simp
    with inv h' show ?thesis by simp
  qed
qed

lemma deliveryStep_total:
  assumes "\<forall>k. conn_inv (store h k)"
  shows "\<exists>h'. deliveryStep h i now = Some h'"
proof (cases "length (deliveries h) \<le> i")
  case True
  then show ?thesis by (simp add: deliveryStep_def)
next
  case False
  obtain c m st where g: "deliveries h ! i = Delivery c m st"
    by (cases "deliveries h ! i")
  from assms delivery_next_total [of "store h c" st m now]
  obtain r where "delivery_next st (store h c) m now = Some r" by blast
  with False g show ?thesis
    by (cases r) (auto simp: deliveryStep_def split: option.splits)
qed

lemma healthSweep_pres:
  assumes pres: "\<And>k op c c'. Q k c \<Longrightarrow> conn_step op c = Some c' \<Longrightarrow> Q k c'"
    and "\<forall>k. Q k (store h k)"
  shows "\<forall>k. Q k (store (fst (healthSweep now pingok cs h drops)) k)"
  using assms(2)
proof (induction cs arbitrary: h drops)
  case Nil
  then show ?case by simp
next
  case (Cons c cs)
  have ping: "Q c (snd (SendPing (store h c) (pingok c)))"
    using pres [of c "store h c" "OpSendPing (pingok c)"] Cons.prems by simp
  show ?case
    unfolding healthSweep_Cons using Cons.prems ping
    by (auto intro!: Cons.IH [rule_format])
qed

lemma submitDrops_pres:
  assumes pres: "\<And>k op c c'. Q k c \<Longrightarrow> conn_step op c = Some c' \<Longrightarrow> Q k c'"
    and "\<forall>k. Q k (store h k)"
  shows "\<forall>k. Q k (store (submitDrops accept cs h) k)"
  using assms(2)
proof (induction cs arbitrary: h)
  case Nil
  then show ?case by simp
next
  case (Cons c cs)
  have "Q c (Close (store h c))"
    using pres [of c "store h c" OpClose] Cons.prems by simp
  with Cons.prems show ?case
    by (auto intro!: Cons.IH [rule_format])
qed

lemma Run_step_pres:
  assumes pres: "\<And>k op c c'. Q k c \<Longrightarrow> conn_step op c = Some c' \<Longrightarrow> Q k c'"
    and inv: "\<forall>k. Q k (store h k)" and step: "Run_step h e = Some h'"
  shows "\<forall>k. Q k (store h' k)"
proof (cases e)
  case (Register c)
  with inv step show ?thesis by auto
next
  case (Unregister c)
  have "Q c (Close (store h c))"
    using pres [of c "store h c" OpClose] inv by simp
  with Unregister inv step show ?thesis by auto
next
  case (HealthTick now pingok accept)
  have "\<forall>k. Q k (store (fst (healthSweep now pingok (members h) h [])) k)"
    using healthSweep_pres [of Q h] pres inv by blast
  then have "\<forall>k. Q k (store (checkConnectionHealth h now pingok accept) k)"
    unfolding checkConnectionHealth_alt using submitDrops_pres [of Q] pres by blast
  with HealthTick step show ?thesis by auto
next
  case (BroadcastMsg m accept)
  with inv step show ?thesis by auto
next
  case (Deliver i now)
  with step have "deliveryStep h i now = Some h'" by simp
  from deliveryStep_pres [of Q h i now h', OF pres inv this] show ?thesis .
next
  case (ConnTask c op)
  with step obtain c' where c': "conn_step op (store h c) = Some c'" and h': "h' = on_conn h c c'"
    by (auto split: option.splits)
  have "Q c c'" using pres [of c "store h c" op c'] inv c' by simp
  with inv h' show ?thesis by simp
qed

lemma Run_pres:
  assumes pres: "\<And>k op c c'. Q k c \<Longrightarrow> conn_step op c = Some c' \<Longrightarrow> Q k c'"
    and "\<forall>k. Q k (store h k)" and "Run h es = Some h'"
  shows "\<forall>k. Q k (store h' k)"
  using assms(2,3)
proof (induction es arbitrary: h)
  case Nil
  then show ?case by simp
next
  case (Cons e es)
  from Cons.prems(2) obtain h1 where s: "Run_step h e = Some h1" and r: "Run h1 es = Some h'"
    by (auto split: option.splits)
  have "\<forall>k. Q k (store h1 k)"
    using Run_step_pres [of Q h e h1] pres Cons.prems(1) s by blast
  from Cons.IH [OF this r] show ?case .
qed

lemma members_update [simp]:
  "set (members (h\<lparr>connections := AList.update c v (connections h)\<rparr>)) = insert c (set (members h))"
  by (simp add: members_def dom_update)

lemma distinct_members_update:
  "distinct (members h) \<Longrightarrow> distinct (members (h\<lparr>connections := AList.update c v (connections h)\<rparr>))"
  by (simp add: members_def distinct_update)

lemma Run_step_total:
  assumes "\<forall>k. conn_inv (store h k)"
  shows "\<exists>h'. Run_step h e = Some h'"
proof (cases e)
  case (Deliver i now)
  with deliveryStep_total [OF assms, of i now] show ?thesis by simp
next
  case (ConnTask c op)
  with assms conn_step_total [of "store h c" op] show ?thesis by auto
qed simp_all

lemma Run_step_members:
  assumes "Run_step h e = Some h'"
  shows "set (members h') = spec_step h e (set (members h))"
proof (cases e)
  case (Register c)
  with assms show ?thesis by auto
next
  case (Unregister c)
  with assms show ?thesis by auto
next
  case (HealthTick now pingok accept)
  with assms show ?thesis by (auto simp: checkConnectionHealth_members)
next
  case (BroadcastMsg m accept)
  with assms show ?thesis by (auto simp: Broadcast_members)
next
  case (ConnTask c op)
  with assms show ?thesis by (auto split: option.splits)
next
  case (Deliver i now)
  with assms have "connections h' = connections h"
    by (auto dest: deliveryStep_connections)
  with Deliver show ?thesis by (simp add: members_def)
qed

lemma Run_step_distinct:
  assumes "Run_step h e = Some h'" and "distinct (members h)"
  shows "distinct (members h')"
proof (cases e)
  case (Register c)
  with assms show ?thesis by (auto simp: distinct_members_update)
next
  case (Unregister c)
  with assms show ?thesis by auto
next
  case (HealthTick now pingok accept)
  with assms show ?thesis by (auto simp: checkConnectionHealth_members)
next
  case (BroadcastMsg m accept)
  with assms show ?thesis by (auto simp: Broadcast_members)
next
  case (ConnTask c op)
  with assms show ?thesis by (auto split: option.splits)
next
  case (Deliver i now)
  with assms have "connections h' = connections h"
    by (auto dest: deliveryStep_connections)
  with assms(2) show ?thesis by (simp add: members_def)
qed

lemma Run_membership:
  assumes "\<forall>k. conn_inv (store h k)" and "distinct (members h)"
  shows "\<exists>h'. Run h es = Some h' \<and> distinct (members h') \<and>
              set (members h') = registered_not_unregistered h (set (members h)) es"
  using assms
proof (induction es arbitrary: h)
  case Nil
  then show ?case by simp
next
  case (Cons e es)
  from Run_step_total [OF Cons.prems(1)] obtain h1 where s: "Run_step h e = Some h1" by blast
  have inv1: "\<forall>k. conn_inv (store h1 k)"
    using Run_step_pres [of "\<lambda>k. conn_inv" h e h1] conn_step_inv Cons.prems(1) s by blast
  have d1: "distinct (members h1)"
    using Run_step_distinct [OF s Cons.prems(2)] .
  from Cons.IH [OF inv1 d1] s Run_step_members [OF s] show ?case by simp
qed

lemma Run_total:
  assumes "\<forall>k. conn_inv (store h k)"
  shows "\<exists>h'. Run h es = Some h'"
  using assms
proof (induction es arbitrary: h)
  case Nil
  then show ?case by simp
next
  case (Cons e es)
  from Run_step_total [OF Cons.prems] obtain h1 where s: "Run_step h e = Some h1" by blast
  have "\<forall>k. conn_inv (store h1 k)"
    using Run_step_pres [of "\<lambda>k. conn_inv" h e h1] conn_step_inv Cons.prems s by blast
  from Cons.IH [OF this] s show ?case by simp
qed

lemma healthSweep_store:
  "distinct cs \<Longrightarrow>
   store (fst (healthSweep now pingok cs h drops)) k =
     (if k \<in> set cs \<and> \<not> isClosed (store h k) \<and> \<not> shouldDrop (store h k) now \<and> isPaused (store h k)
      then snd (SendPing (store h k) (pingok k)) else store h k)"
proof (induction cs arbitrary: h drops)
  case Nil
  then show ?case by simp
next
  case (Cons c cs)
  then show ?case
    unfolding healthSweep_Cons by auto
qed

lemma submitDrops_ws [simp]: "ws (store (submitDrops accept cs h) k) = ws (store h k)"
  by (induction cs arbitrary: h) auto

lemma SendPing_sent:
  "sent (ws (snd (SendPing c ok))) =
     sent (ws c) @ (if \<not> isClosed c \<and> ok \<and> \<not> wsClosed (ws c) then [pingMessage] else [])"
  by (simp add: SendPing_def WriteJSON_def)

section \<open>Properties of the hub\<close>

text \<open>
  C1. Started from an empty hub over connections that satisfy the invariant, the loop
  works through any sequence of register, unregister, health-tick and broadcast events
  (and steps of the connections' own tasks in between) without a panic, and afterwards
  the keys of \<^verbatim>\<open>connections\<close> are, without repetition, exactly the connections
  registered and not yet unregistered.
\<close>

theorem hub_membership:
  assumes "\<forall>k. conn_inv (st k)"
  shows "\<exists>h'. Run (NewConnectionHub st) es = Some h' \<and> distinct (members h') \<and>
              set (members h') = registered_not_unregistered (NewConnectionHub st) {} es"
  using Run_membership [of "NewConnectionHub st" es] assms
  by (simp add: NewConnectionHub_def members_def)

theorem hub_membership_witness:
  "(\<forall>k. conn_inv ((\<lambda>_. NewConnection 0) k)) \<and>
   (\<exists>h'. Run (NewConnectionHub (\<lambda>_. NewConnection 0)) exampleTrace = Some h' \<and>
      distinct (members h') \<and> set (members h') = {3})"
proof -
  have inv: "\<forall>k. conn_inv ((\<lambda>_. NewConnection 0) k)"
    by (simp add: conn_inv_def NewConnection_def make_chan_def)
  have spec:
    "registered_not_unregistered (NewConnectionHub (\<lambda>_. NewConnection 0)) {} exampleTrace = {3}"
    by code_simp
  from hub_membership [of "\<lambda>_. NewConnection 0" exampleTrace] inv spec show ?thesis
    by simp
qed

text \<open>
  C3, as amended. From a hub whose connections satisfy the invariant, the loop works
  through any sequence of events, steps of the connections' own tasks included,
  without a panic; a connection that is closed before is closed afterwards, and its
  outbound buffer afterwards is a suffix of its buffer before: nothing is written
  to the buffer once the connection is closed.
\<close>

theorem closed_is_permanent:
  assumes "\<forall>k. conn_inv (store h k)" and "isClosed (store h c)"
  shows "\<exists>h'. Run h es = Some h' \<and> isClosed (store h' c) \<and>
              suffix (buf (channel (store h' c))) (buf (channel (store h c)))"
proof -
  let ?Q = "\<lambda>k v. isClosed (store h k) \<longrightarrow>
                 isClosed v \<and> suffix (buf (channel v)) (buf (channel (store h k)))"
  from Run_total [OF assms(1)] obtain h' where r: "Run h es = Some h'" by blast
  have "\<forall>k. ?Q k (store h' k)"
  proof (rule Run_pres [where Q = ?Q and h = h and es = es])
    fix k op a a'
    assume "?Q k a" and "conn_step op a = Some a'"
    then show "?Q k a'"
      using conn_step_closed [of a op a'] suffix_order.trans by blast
  next
    show "\<forall>k. ?Q k (store h k)" by simp
  next
    show "Run h es = Some h'" by (rule r)
  qed
  with assms(2) r show ?thesis by blast
qed

text \<open>
  The theorem at a hub over closed connections that still hold an envelope, with a
  broadcast, the \<^verbatim>\<open>sendLog\<close> of a delivery goroutine, a direct \<^verbatim>\<open>sendLog\<close>, a client
  message, a health check and the outbound task.
\<close>

theorem closed_is_permanent_witness:
  "(\<forall>k. conn_inv (store closedHub k)) \<and> isClosed (store closedHub 1) \<and>
   buf (channel (store closedHub 1)) = [exampleLog2] \<and>
   (\<exists>h'. Run closedHub closedTrace = Some h' \<and> isClosed (store h' 1) \<and>
      suffix (buf (channel (store h' 1))) [exampleLog2])"
proof -
  have inv: "\<forall>k. conn_inv (store closedHub k)"
    by (simp add: closedHub_def NewConnectionHub_def conn_inv_Close)
  have cl: "isClosed (store closedHub 1)"
    by (simp add: closedHub_def NewConnectionHub_def)
  have b: "buf (channel (store closedHub 1)) = [exampleLog2]"
    by (simp add: closedHub_def NewConnectionHub_def twoQueued_def NewConnection_def make_chan_def
        Close_def chan_recv_def)
  from closed_is_permanent [of closedHub 1 closedTrace] inv cl b show ?thesis
    by simp
qed

text \<open>
  C3 as stated fails in its last part: a connection closed while two envelopes are
  buffered keeps the second one, and the outbound task then reads it from the buffer
  and writes it to the client although the connection is closed.
\<close>

theorem closed_buffer_is_read:
  "sendLog (NewConnection 0) exampleLog 1 = Some queuedConn \<and>
   sendLog queuedConn exampleLog2 2 = Some twoQueued \<and>
   isClosed (Close twoQueued) \<and>
   buf (channel (Close twoQueued)) = [exampleLog2] \<and>
   buf (channel (fst (Send (Close twoQueued) [True]))) = [] \<and>
   sent (ws (fst (Send (Close twoQueued) [True]))) = [exampleLog2]"
  by (simp add: sendLog_def chan_send_def queuedConn_def twoQueued_def NewConnection_def
      make_chan_def Close_def chan_recv_def WriteJSON_def)

text \<open>
  C4. Evaluated on a paused connection that has been silent for 11 seconds, with the
  unregister channel not accepting: the health check closes the connection and leaves
  it in \<^verbatim>\<open>connections\<close>. The broadcast that follows finds it closed and removes it.
\<close>

theorem health_check_force_close_keeps_member:
  "map_option (\<lambda>h. (members h, isClosed (store h 1)))
     (Run (NewConnectionHub (\<lambda>_. NewConnection 0)) (staleTrace False)) = Some ([1], True) \<and>
   map_option members
     (Run (NewConnectionHub (\<lambda>_. NewConnection 0))
        (staleTrace False @ [BroadcastMsg exampleLog (\<lambda>_. False)])) = Some []"
  by code_simp

text \<open>
  C6, as amended. The broadcast branch changes no connection: it starts one delivery
  goroutine for each connection that is not closed, at its \<^verbatim>\<open>IsPaused\<close> test. A
  goroutine whose \<^verbatim>\<open>IsPaused\<close> test finds the connection paused, or whose
  \<^verbatim>\<open>shouldDrop\<close> test finds the drop predicate true, returns without touching the
  connection, so that it delivers nothing. A health check writes a ping to a paused
  connection exactly when the connection is in \<^verbatim>\<open>connections\<close>, is not closed, does
  not meet the drop predicate and the write to its socket succeeds; otherwise nothing
  is written to it.
\<close>

theorem paused_no_log_but_ping:
  assumes "distinct (members h)" and "isPaused (store h c)"
  shows "store (Broadcast h m accept) = store h \<and>
         deliveries (Broadcast h m accept) =
           deliveries h @
           map (\<lambda>k. Delivery k m AtIsPaused) (filter (\<lambda>k. \<not> isClosed (store h k)) (members h)) \<and>
         (i < length (deliveries h) \<and> deliveries h ! i = Delivery c m AtIsPaused \<longrightarrow>
            deliveryStep h i now =
              Some (h\<lparr>deliveries := take i (deliveries h) @ drop (Suc i) (deliveries h)\<rparr>)) \<and>
         (j < length (deliveries h) \<and> deliveries h ! j = Delivery d m AtShouldDrop \<and>
          shouldDrop (store h d) now \<longrightarrow>
            deliveryStep h j now =
              Some (h\<lparr>deliveries := take j (deliveries h) @ drop (Suc j) (deliveries h)\<rparr>)) \<and>
         sent (ws (store (checkConnectionHealth h tick pingok accept) c)) =
           sent (ws (store h c)) @
             (if c \<in> set (members h) \<and> \<not> isClosed (store h c) \<and> \<not> shouldDrop (store h c) tick \<and>
                 pingok c \<and> \<not> wsClosed (ws (store h c))
              then [pingMessage] else [])"
proof -
  have test:
    "i < length (deliveries h) \<and> deliveries h ! i = Delivery c m AtIsPaused \<longrightarrow>
       deliveryStep h i now =
         Some (h\<lparr>deliveries := take i (deliveries h) @ drop (Suc i) (deliveries h)\<rparr>)"
    using assms(2) by (simp add: deliveryStep_def IsPaused_def on_conn_def)
  have drop:
    "j < length (deliveries h) \<and> deliveries h ! j = Delivery d m AtShouldDrop \<and>
     shouldDrop (store h d) now \<longrightarrow>
       deliveryStep h j now =
         Some (h\<lparr>deliveries := take j (deliveries h) @ drop (Suc j) (deliveries h)\<rparr>)"
    by (simp add: deliveryStep_def on_conn_def)
  have "ws (store (checkConnectionHealth h tick pingok accept) c) =
          ws (store (fst (healthSweep tick pingok (members h) h [])) c)"
    by (simp add: checkConnectionHealth_alt)
  with healthSweep_store [OF assms(1), of tick pingok h "[]" c] assms(2)
  have ping: "sent (ws (store (checkConnectionHealth h tick pingok accept) c)) =
          sent (ws (store h c)) @
            (if c \<in> set (members h) \<and> \<not> isClosed (store h c) \<and> \<not> shouldDrop (store h c) tick \<and>
                pingok c \<and> \<not> wsClosed (ws (store h c))
             then [pingMessage] else [])"
    by (auto simp: SendPing_sent)
  from test drop ping Broadcast_deliveries [of h m accept] show ?thesis
    by simp
qed

text \<open>
  The theorem at a hub of two paused connections, last heard at time 0, with one
  goroutine at each test: the tests are made after 11 seconds, the health check after 3.
\<close>

theorem paused_no_log_but_ping_witness:
  "distinct (members pausedHub) \<and> isPaused (store pausedHub 1) \<and>
   shouldDrop (store pausedHub 2) (11 * Second) \<and>
   store (Broadcast pausedHub exampleLog (\<lambda>_. False)) 1 = pausedConn \<and>
   deliveries (Broadcast pausedHub exampleLog (\<lambda>_. False)) =
     deliveries pausedHub @ [Delivery 1 exampleLog AtIsPaused, Delivery 2 exampleLog AtIsPaused] \<and>
   deliveryStep pausedHub 0 (11 * Second) =
     Some (pausedHub\<lparr>deliveries := [Delivery 2 exampleLog AtShouldDrop]\<rparr>) \<and>
   deliveryStep pausedHub 1 (11 * Second) =
     Some (pausedHub\<lparr>deliveries := [Delivery 1 exampleLog AtIsPaused]\<rparr>) \<and>
   sent (ws (store (checkConnectionHealth pausedHub (3 * Second) (\<lambda>_. True) (\<lambda>_. False)) 1)) =
     [pingMessage]"
proof -
  have d: "distinct (members pausedHub)"
    by (simp add: pausedHub_def members_def)
  have p: "isPaused (store pausedHub 1)"
    by (simp add: pausedHub_def pausedConn_def)
  have facts: "store pausedHub 1 = pausedConn" "store pausedHub 2 = pausedConn"
    "members pausedHub = [1, 2]"
    "deliveries pausedHub = [Delivery 1 exampleLog AtIsPaused, Delivery 2 exampleLog AtShouldDrop]"
    "\<not> isClosed pausedConn" "\<not> shouldDrop pausedConn (3 * Second)"
    "shouldDrop pausedConn (11 * Second)" "\<not> wsClosed (ws pausedConn)"
    "sent (ws pausedConn) = []"
    by (simp_all add: pausedHub_def members_def pausedConn_def NewConnection_def shouldDrop_def
        time_Since_def Second_def)
  from paused_no_log_but_ping [where h = pausedHub and c = 1 and m = exampleLog
      and accept = "\<lambda>_. False" and i = 0 and j = 1 and d = 2 and now = "11 * Second"
      and tick = "3 * Second" and pingok = "\<lambda>_. True"]
    d p facts show ?thesis
    by simp
qed

text \<open>
  C6 as stated fails in both parts. A connection that is paused when the hub
  dispatches the broadcast and resumes before the goroutine makes its test gets the
  envelope; a connection that pauses after the goroutine's tests gets the envelope
  while it is paused; and a paused connection that has been silent for more than 10
  seconds gets no ping from the health check, it is queued for removal.
\<close>

theorem paused_delivery_and_ping_fail:
  "map_option (\<lambda>h. (isPaused (store h 1), buf (channel (store h 1))))
     (Run (NewConnectionHub (\<lambda>_. NewConnection 0)) pausedAtDispatch) = Some (True, []) \<and>
   map_option (\<lambda>h. buf (channel (store h 1)))
     (Run (NewConnectionHub (\<lambda>_. NewConnection 0)) resumedBeforeTest) = Some [exampleLog] \<and>
   map_option (\<lambda>h. (isPaused (store h 1), buf (channel (store h 1))))
     (Run (NewConnectionHub (\<lambda>_. NewConnection 0)) (testedThenPaused @ [Deliver 0 (5 * Second)])) =
     Some (True, [exampleLog]) \<and>
   map_option (\<lambda>h. (members h, isPaused (store h 1), isClosed (store h 1), sent (ws (store h 1))))
     (Run (NewConnectionHub (\<lambda>_. NewConnection 0)) (staleTrace False)) = Some ([1], True, True, [])"
  by code_simp

end
